theory Spec2Isabelle
  imports Main
begin

section \<open>Cursors: the pull protocol of Python iterators\<close>

text \<open>
  Source: \<^verbatim>\<open>homeworks/iterators/iterator.py\<close>.

  A Python iterator is a piece of mutable state with one operation, \<^verbatim>\<open>__next__\<close>, which
  either returns an element or raises \<^verbatim>\<open>StopIteration\<close>. It is modelled as a function
  from the state to a result and the state afterwards; \<open>None\<close> is \<^verbatim>\<open>StopIteration\<close>.
  The state after a raise is what the body has written before raising.

  The iterator \<^verbatim>\<open>iter(seq)\<close> over a list that nobody mutates is the list of the elements
  it has not returned yet. \<^verbatim>\<open>next(it)\<close> on it:
\<close>

definition list_next :: "'a list \<Rightarrow> 'a option \<times> 'a list" where
  "list_next it = (case it of [] \<Rightarrow> (None, []) | x # rest \<Rightarrow> (Some x, rest))"

text \<open>
  A consumer that calls \<^verbatim>\<open>next\<close> on a cursor \<open>n\<close> times in a row, catching
  \<^verbatim>\<open>StopIteration\<close>, sees the list of the \<open>n\<close> results, and leaves the cursor in the
  state after the last call.
\<close>

fun pull :: "('s \<Rightarrow> 'a option \<times> 's) \<Rightarrow> nat \<Rightarrow> 's \<Rightarrow> 'a option list \<times> 's" where
  "pull nxt 0 s = ([], s)"
| "pull nxt (Suc n) s =
     (case nxt s of (r, s') \<Rightarrow> (case pull nxt n s' of (rs, s'') \<Rightarrow> (r # rs, s'')))"

text \<open>
  What such a consumer sees of a cursor that produces the elements of \<open>ys\<close> and is
  exhausted from then on: the first \<open>n\<close> elements, then the exhaustion signal for
  every request left.
\<close>

definition observed :: "nat \<Rightarrow> 'a list \<Rightarrow> 'a option list" where
  "observed n ys = map Some (take n ys) @ replicate (n - length ys) None"

section \<open>The model: chaining\<close>

text \<open>
  \<^verbatim>\<open>
  class ChainSequences:
      def __init__(self, *sequences):
          self.sequences = sequences
          self.current_sequence_index = 0
          self.current_iterator = iter(self.sequences[0]) if self.sequences else iter([])

      def __next__(self):
          while True:
              try:
                  return next(self.current_iterator)
              except StopIteration:
                  self.current_sequence_index += 1
                  if self.current_sequence_index >= len(self.sequences):
                      raise StopIteration
                  self.current_iterator = iter(self.sequences[self.current_sequence_index])
  \<close>
\<close>

record 'a ChainSequences =
  sequences :: "'a list list"
  current_sequence_index :: nat
  current_iterator :: "'a list"

definition ChainSequences_init :: "'a list list \<Rightarrow> 'a ChainSequences" where
  "ChainSequences_init seqs =
     \<lparr>sequences = seqs, current_sequence_index = 0,
      current_iterator = (if seqs \<noteq> [] then seqs ! 0 else [])\<rparr>"

function ChainSequences_next :: "'a ChainSequences \<Rightarrow> 'a option \<times> 'a ChainSequences" where
  "ChainSequences_next s =
     (case list_next (current_iterator s) of
        (Some x, it) \<Rightarrow> (Some x, s\<lparr>current_iterator := it\<rparr>)
      | (None, it) \<Rightarrow>
          (let s1 = s\<lparr>current_iterator := it,
                      current_sequence_index := current_sequence_index s + 1\<rparr>
           in if current_sequence_index s1 \<ge> length (sequences s1) then (None, s1)
              else ChainSequences_next
                     (s1\<lparr>current_iterator := sequences s1 ! current_sequence_index s1\<rparr>)))"
  by pat_completeness auto
termination
  by (relation "measure (\<lambda>s. length (sequences s) - current_sequence_index s)") auto

text \<open>
  \<^verbatim>\<open>
  def chain_sequences(*sequences):
      for seq in sequences:
          yield from seq
  \<close>
  A generator whose body always runs to its end on finite inputs is modelled by the list
  of the values it yields, in order; as a cursor it is that list under \<open>list_next\<close>.
\<close>

fun chain_sequences :: "'a list list \<Rightarrow> 'a list" where
  "chain_sequences [] = []"
| "chain_sequences (seq # rest) = seq @ chain_sequences rest"

section \<open>The model: zipping\<close>

text \<open>
  \<^verbatim>\<open>
  class ZipSequences:
      def __init__(self, *sequences):
          self.sequences = sequences
          self.iterators = [iter(seq) for seq in sequences]
          self.index = 0

      def __next__(self):
          try:
              result = []
              for it in self.iterators:
                  result.append(next(it))
              return tuple(result)
          except StopIteration:
              raise StopIteration
  \<close>
  The \<^verbatim>\<open>for\<close> loop advances the iterators from left to right and leaves at the first one
  that is exhausted: the iterators before it have been advanced, the ones after it have
  not. \<open>advance_each\<close> is that loop; it returns the result list (or \<open>None\<close> for the
  \<^verbatim>\<open>StopIteration\<close> that leaves it) and the iterators afterwards. A tuple is modelled by
  the list of its components.
\<close>

fun advance_each :: "'a list list \<Rightarrow> 'a list \<Rightarrow> 'a list option \<times> 'a list list" where
  "advance_each [] result = (Some result, [])"
| "advance_each (it # its) result =
     (case list_next it of
        (None, it') \<Rightarrow> (None, it' # its)
      | (Some x, it') \<Rightarrow>
          (case advance_each its (result @ [x]) of (r, its') \<Rightarrow> (r, it' # its')))"

record 'a ZipSequences =
  sequences_zip :: "'a list list"
  iterators :: "'a list list"
  index_zip :: nat

definition ZipSequences_init :: "'a list list \<Rightarrow> 'a ZipSequences" where
  "ZipSequences_init seqs = \<lparr>sequences_zip = seqs, iterators = seqs, index_zip = 0\<rparr>"

definition ZipSequences_next :: "'a ZipSequences \<Rightarrow> 'a list option \<times> 'a ZipSequences" where
  "ZipSequences_next s =
     (case advance_each (iterators s) [] of (r, its) \<Rightarrow> (r, s\<lparr>iterators := its\<rparr>))"

text \<open>
  \<^verbatim>\<open>
  def zip_sequences(*sequences):
      iterators = [iter(seq) for seq in sequences]
      while True:
          try:
              result = []
              for it in iterators:
                  result.append(next(it))
              yield tuple(result)
          except StopIteration:
              return
  \<close>
  This generator need not run to an end, so it is modelled as a cursor of its own: its
  state is the local \<^verbatim>\<open>iterators\<close> while the body is suspended in the loop, and
  \<open>Finished\<close> once the body has returned (a finished generator raises
  \<^verbatim>\<open>StopIteration\<close> on every further request).
\<close>

datatype 'a zip_generator = Running "'a list list" | Finished

definition zip_sequences :: "'a list list \<Rightarrow> 'a zip_generator" where
  "zip_sequences seqs = Running seqs"

fun zip_sequences_next :: "'a zip_generator \<Rightarrow> 'a list option \<times> 'a zip_generator" where
  "zip_sequences_next (Running its) =
     (case advance_each its [] of
        (Some result, its') \<Rightarrow> (Some result, Running its')
      | (None, its') \<Rightarrow> (None, Finished))"
| "zip_sequences_next Finished = (None, Finished)"

section \<open>The model: primes\<close>

text \<open>
  \<^verbatim>\<open>
  def generate_primes(n: int) -> Generator[int, None, None]:
      if n <= 1:
          return
      yield 1
      if n <= 2:
          return
      is_prime = [True] * n
      is_prime[0] = is_prime[1] = False
      for i in range(2, int(math.sqrt(n)) + 1):
          if is_prime[i]:
              for j in range(i*i, n, i):
                  is_prime[j] = False
      for i in range(2, n):
          if is_prime[i]:
              yield i
  \<close>
  \<^verbatim>\<open>int(math.sqrt(n))\<close> is the integer square root of \<open>n\<close> (the floating-point square
  root is exact enough for that on every \<open>n\<close> whose marker list fits in memory).
\<close>

fun isqrt :: "nat \<Rightarrow> nat" where
  "isqrt 0 = 0"
| "isqrt (Suc n) = (let r = isqrt n in if (r + 1) * (r + 1) \<le> Suc n then r + 1 else r)"

text \<open>\<^verbatim>\<open>range(start, stop, step)\<close> for a positive step.\<close>

definition range_step :: "nat \<Rightarrow> nat \<Rightarrow> nat \<Rightarrow> nat list" where
  "range_step start stop step =
     map (\<lambda>q. start + q * step) [0..<(stop - start + step - 1) div step]"

text \<open>The inner loop: strike the multiples of \<open>i\<close> from \<open>i * i\<close> on.\<close>

definition strike :: "nat \<Rightarrow> nat \<Rightarrow> bool list \<Rightarrow> bool list" where
  "strike n i is_prime = fold (\<lambda>j marks. marks[j := False]) (range_step (i * i) n i) is_prime"

text \<open>The marker list after the outer loop has run over \<^verbatim>\<open>range(2, r + 1)\<close>.\<close>

definition sieve :: "nat \<Rightarrow> nat \<Rightarrow> bool list" where
  "sieve n r =
     fold (\<lambda>i marks. if marks ! i then strike n i marks else marks) [2..<r + 1]
       ((replicate n True)[0 := False, 1 := False])"

definition generate_primes :: "int \<Rightarrow> int list" where
  "generate_primes n =
     (if n \<le> 1 then []
      else 1 #
        (if n \<le> 2 then []
         else (let is_prime = sieve (nat n) (isqrt (nat n))
               in map int (filter (\<lambda>i. is_prime ! i) [2..<nat n]))))"

section \<open>The model: combinations\<close>

text \<open>
  \<^verbatim>\<open>
  def generate_combinations(sequence, k):
      n = len(sequence)
      if k > n or k <= 0:
          return
      def _combine(start, current):
          if len(current) == k:
              yield tuple(current)
              return
          for i in range(start, n):
              current.append(sequence[i])
              yield from _combine(i + 1, current)
              current.pop()
      yield from _combine(0, [])
  \<close>
  \<^verbatim>\<open>current\<close> is extended before each recursive call and cut back after it, so each
  call sees the list of its caller with one element added.
\<close>

function combine :: "'a list \<Rightarrow> nat \<Rightarrow> nat \<Rightarrow> 'a list \<Rightarrow> 'a list list" where
  "combine sequence k start current =
     (if length current = k then [current]
      else concat (map (\<lambda>i. combine sequence k (i + 1) (current @ [sequence ! i]))
                       [start..<length sequence]))"
  by pat_completeness auto
termination
  by (relation "measure (\<lambda>(sequence, k, start, current). length sequence - start)") auto

definition generate_combinations :: "'a list \<Rightarrow> int \<Rightarrow> 'a list list" where
  "generate_combinations sequence k =
     (let n = length sequence
      in if k > int n \<or> k \<le> 0 then [] else combine sequence (nat k) 0 [])"

section \<open>The model: flattening\<close>

text \<open>
  The values that the flattening code tells apart: a list, and anything else. The other
  values are represented by integers, strings and tuples (a tuple is a sequence too, and
  may hold lists).
\<close>

datatype pyval = PInt int | PStr string | PTuple "pyval list" | PList "pyval list"

text \<open>\<^verbatim>\<open>isinstance(element, list)\<close>\<close>

fun isinstance_list :: "pyval \<Rightarrow> bool" where
  "isinstance_list (PList items) = True"
| "isinstance_list _ = False"

text \<open>
  \<^verbatim>\<open>
  class FlattenIterator:
      def __init__(self, nested_list):
          self.stack = [(nested_list, 0)]  # (list, current_index)

      def __next__(self):
          while self.stack:
              current_list, index = self.stack[-1]
              if index >= len(current_list):
                  self.stack.pop()
                  continue
              self.stack[-1] = (current_list, index + 1)
              element = current_list[index]
              if isinstance(element, list):
                  self.stack.append((element, 0))
              else:
                  return element
          raise StopIteration
  \<close>
  The stack is a Python list whose top is its last element.
\<close>

type_synonym frame = "pyval list \<times> nat"

fun weight :: "pyval \<Rightarrow> nat" where
  "weight (PList items) = 2 + sum_list (map weight items)"
| "weight _ = 1"

definition frame_weight :: "frame \<Rightarrow> nat" where
  "frame_weight f = (case f of (current_list, index) \<Rightarrow>
     1 + sum_list (map weight (drop index current_list)))"

definition FlattenIterator_init :: "pyval list \<Rightarrow> frame list" where
  "FlattenIterator_init nested_list = [(nested_list, 0)]"

lemma frame_weight_pop:
  assumes "stack \<noteq> []"
  shows "sum_list (map frame_weight (butlast stack)) < sum_list (map frame_weight stack)"
proof -
  from assms have split_last: "stack = butlast stack @ [last stack]"
    by simp
  have "sum_list (map frame_weight (butlast stack))
        < sum_list (map frame_weight (butlast stack @ [last stack]))"
    by (cases "last stack") (simp add: frame_weight_def)
  with split_last show ?thesis
    by simp
qed

lemma frame_weight_push:
  assumes nonempty: "stack \<noteq> []"
    and top: "last stack = (current_list, index)"
    and inside: "index < length current_list"
    and elem: "current_list ! index = PList items"
  shows "sum_list (map frame_weight (butlast stack)) +
           (frame_weight (current_list, Suc index) + frame_weight (items, 0))
         < sum_list (map frame_weight stack)"
proof -
  from nonempty top have split_last: "stack = butlast stack @ [(current_list, index)]"
    by (metis append_butlast_last_id)
  from inside have "drop index current_list = current_list ! index # drop (Suc index) current_list"
    by (simp add: Cons_nth_drop_Suc)
  with elem have "frame_weight (current_list, index) =
      frame_weight (current_list, Suc index) + frame_weight (items, 0) + 1"
    by (simp add: frame_weight_def)
  then have "sum_list (map frame_weight (butlast stack)) +
           (frame_weight (current_list, Suc index) + frame_weight (items, 0))
      < sum_list (map frame_weight (butlast stack @ [(current_list, index)]))"
    by simp
  with split_last show ?thesis
    by simp
qed

function FlattenIterator_next :: "frame list \<Rightarrow> pyval option \<times> frame list" where
  "FlattenIterator_next stack =
     (if stack = [] then (None, stack)
      else (case last stack of (current_list, index) \<Rightarrow>
        if index \<ge> length current_list then FlattenIterator_next (butlast stack)
        else (let stack1 = butlast stack @ [(current_list, index + 1)];
                  element = current_list ! index
              in (case element of
                    PList items \<Rightarrow> FlattenIterator_next (stack1 @ [(items, 0)])
                  | _ \<Rightarrow> (Some element, stack1)))))"
  by pat_completeness auto
termination
  apply (relation "measure (\<lambda>stack. sum_list (map frame_weight stack))")
    apply simp
   apply (simp add: frame_weight_pop)
  apply (simp add: frame_weight_push)
  done

text \<open>
  \<^verbatim>\<open>
  def flatten_iterator_generator(nested_list):
      for element in nested_list:
          if isinstance(element, list):
              yield from flatten_iterator_generator(element)
          else:
              yield element
  \<close>
  The generator calls itself once for each level of nesting, and \<^verbatim>\<open>yield from\<close> keeps the
  frames of all the enclosing calls on the interpreter's call stack while an inner one
  runs. The interpreter bounds the depth of that stack (\<^verbatim>\<open>sys.getrecursionlimit()\<close>, 1000
  unless it is changed) and raises \<^verbatim>\<open>RecursionError\<close> where a frame beyond the bound would
  be entered. Nothing in the generator catches it, so it leaves every enclosing call and
  reaches the consumer.

  A run of a generator is modelled by the list of the values it yields, in order, and by
  how it ends: \<open>None\<close> when the body returns, \<open>Some e\<close> when the exception \<open>e\<close> leaves it
  after those values. \<open>gen_then\<close> runs one piece of a generator body after another: the
  second piece is not run when the first has raised.
\<close>

datatype py_error = RecursionError

type_synonym 'a run = "'a list \<times> py_error option"

definition gen_then :: "'a run \<Rightarrow> 'a run \<Rightarrow> 'a run" where
  "gen_then a b =
     (case a of
        (ys, Some e) \<Rightarrow> (ys, Some e)
      | (ys, None) \<Rightarrow> (case b of (zs, r) \<Rightarrow> (ys @ zs, r)))"

text \<open>
  \<open>frames\<close> is the number of frames the generator may still put on the call stack: the
  recursion limit less the depth at which the consumer runs. With none left, the body
  cannot be entered at all. The \<^verbatim>\<open>for\<close> loop is the recursion over the list.
\<close>

fun flatten_iterator_generator :: "nat \<Rightarrow> pyval list \<Rightarrow> pyval run" where
  "flatten_iterator_generator 0 nested_list = ([], Some RecursionError)"
| "flatten_iterator_generator (Suc frames) [] = ([], None)"
| "flatten_iterator_generator (Suc frames) (element # rest) =
     gen_then
       (case element of
          PList items \<Rightarrow> flatten_iterator_generator frames items
        | _ \<Rightarrow> ([element], None))
       (flatten_iterator_generator (Suc frames) rest)"

section \<open>Abstractions of the cursor states\<close>

text \<open>
  Each cursor state stands for the list of the elements it has still to produce. These
  functions are used in the proofs only.
\<close>

text \<open>The elements a chain cursor has still to produce.\<close>

definition chain_rem :: "'a ChainSequences \<Rightarrow> 'a list" where
  "chain_rem s =
     current_iterator s @ concat (drop (Suc (current_sequence_index s)) (sequences s))"

text \<open>
  The tuples a zip cursor over the iterators \<open>its\<close> has still to produce: row \<open>j\<close>
  holds the \<open>j\<close>-th element of each, up to the length of the shortest.
\<close>

definition zip_rows :: "'a list list \<Rightarrow> 'a list list" where
  "zip_rows its = map (\<lambda>j. map (\<lambda>s. s ! j) its) [0..<Min (length ` set its)]"

fun zip_generator_rows :: "'a zip_generator \<Rightarrow> 'a list list" where
  "zip_generator_rows (Running its) = zip_rows its"
| "zip_generator_rows Finished = []"

text \<open>The generator states over at least one iterator.\<close>

fun zip_generator_ok :: "'a zip_generator \<Rightarrow> bool" where
  "zip_generator_ok (Running its) = (its \<noteq> [])"
| "zip_generator_ok Finished = True"

text \<open>
  The leaves of a nested value in depth-first, left-to-right order, as the specification
  words it: a value is either a sequence of nested values (a list) or a leaf.
\<close>

fun leaves :: "pyval \<Rightarrow> pyval list" where
  "leaves (PList items) = concat (map leaves items)"
| "leaves v = [v]"

text \<open>
  The elements a flatten cursor has still to produce: what is left of the frame on top
  of the stack first, then what is left of the frames below it.
\<close>

definition flat_rem :: "frame list \<Rightarrow> pyval list" where
  "flat_rem stack =
     concat (map (\<lambda>(current_list, index). concat (map leaves (drop index current_list)))
                 (rev stack))"

text \<open>The value \<open>v\<close> wrapped in \<open>k\<close> lists of one element each.\<close>

fun nest :: "nat \<Rightarrow> pyval \<Rightarrow> pyval" where
  "nest 0 v = v"
| "nest (Suc k) v = PList [nest k v]"

text \<open>
  How deeply lists are nested in a value: 0 for a value that is not a list, and one more
  than the deepest of its items for a list.
\<close>

fun depth :: "pyval \<Rightarrow> nat" where
  "depth (PList items) = Suc (Max (insert 0 (depth ` set items)))"
| "depth v = 0"



text \<open>
  The marker list once the outer loop of the sieve has dealt with every \<open>i\<close> below \<open>k\<close>:
  a number is still marked exactly when it is at least 2 and no \<open>d\<close> from 2 below \<open>k\<close>
  with \<open>d * d\<close> up to it divides it.
\<close>

definition sieved :: "nat \<Rightarrow> nat \<Rightarrow> bool list \<Rightarrow> bool" where
  "sieved n k marks \<longleftrightarrow>
     length marks = n \<and>
     (\<forall>m < n. marks ! m = (2 \<le> m \<and> (\<forall>d. 2 \<le> d \<and> d < k \<and> d * d \<le> m \<longrightarrow> \<not> d dvd m)))"

section \<open>Properties of cursors\<close>

lemma pull_abstraction:
  assumes step: "\<And>s. I s \<Longrightarrow>
      I (snd (nxt s)) \<and>
      fst (nxt s) = (case rem s of [] \<Rightarrow> None | x # _ \<Rightarrow> Some x) \<and>
      rem (snd (nxt s)) = tl (rem s)"
    and "I s"
  shows "fst (pull nxt n s) = observed n (rem s)"
  using \<open>I s\<close>
proof (induction n arbitrary: s)
  case 0
  show ?case by (simp add: observed_def)
next
  case (Suc n)
  from step [OF Suc.prems]
  have inv: "I (snd (nxt s))"
    and res: "fst (nxt s) = (case rem s of [] \<Rightarrow> None | x # _ \<Rightarrow> Some x)"
    and rest: "rem (snd (nxt s)) = tl (rem s)"
    by simp_all
  have "fst (pull nxt (Suc n) s) = fst (nxt s) # fst (pull nxt n (snd (nxt s)))"
    by (simp split: prod.splits)
  also have "\<dots> = fst (nxt s) # observed n (tl (rem s))"
    using Suc.IH [OF inv] rest by simp
  also have "\<dots> = observed (Suc n) (rem s)"
    using res by (cases "rem s") (simp_all add: observed_def)
  finally show ?case .
qed

lemma list_next_observed: "fst (pull list_next n ys) = observed n ys"
  by (rule pull_abstraction [where I = "\<lambda>_. True" and rem = "\<lambda>ys. ys"])
     (simp_all add: list_next_def split: list.splits)

section \<open>Chaining\<close>

declare ChainSequences_next.simps [simp del]

lemma ChainSequences_next_step:
  "fst (ChainSequences_next s) = (case chain_rem s of [] \<Rightarrow> None | x # _ \<Rightarrow> Some x) \<and>
   chain_rem (snd (ChainSequences_next s)) = tl (chain_rem s)"
proof (induction s rule: ChainSequences_next.induct)
  case (1 s)
  show ?case
  proof (cases "current_iterator s")
    case (Cons x it)
    then show ?thesis
      by (subst (1 2) ChainSequences_next.simps) (simp add: list_next_def chain_rem_def)
  next
    case Nil
    show ?thesis
    proof (cases "Suc (current_sequence_index s) \<ge> length (sequences s)")
      case True
      with Nil show ?thesis
        by (subst (1 2) ChainSequences_next.simps) (simp add: list_next_def chain_rem_def)
    next
      case False
      let ?s2 = "s\<lparr>current_sequence_index := Suc (current_sequence_index s),
                     current_iterator := sequences s ! Suc (current_sequence_index s)\<rparr>"
      have eq: "ChainSequences_next s = ChainSequences_next ?s2"
        using Nil False by (subst ChainSequences_next.simps) (simp add: list_next_def)
      have "chain_rem ?s2 = chain_rem s"
        using Nil False by (simp add: chain_rem_def Cons_nth_drop_Suc [symmetric])
      moreover have
        "fst (ChainSequences_next ?s2) = (case chain_rem ?s2 of [] \<Rightarrow> None | x # _ \<Rightarrow> Some x) \<and>
         chain_rem (snd (ChainSequences_next ?s2)) = tl (chain_rem ?s2)"
        using "1.IH" [of None "[]" "s\<lparr>current_iterator := [],
                      current_sequence_index := current_sequence_index s + 1\<rparr>"] Nil False
        by (simp add: list_next_def)
      ultimately show ?thesis using eq by simp
    qed
  qed
qed

lemma chain_sequences_concat: "chain_sequences seqs = concat seqs"
  by (induction seqs) simp_all

lemma chain_rem_init: "chain_rem (ChainSequences_init seqs) = concat seqs"
  by (cases seqs) (simp_all add: chain_rem_def ChainSequences_init_def)

lemma ChainSequences_pull:
  "fst (pull ChainSequences_next n s) = observed n (chain_rem s)"
  by (rule pull_abstraction [where I = "\<lambda>_. True"]) (simp_all add: ChainSequences_next_step)

text \<open>
  C6: for every list of finite input sequences, the generator \<open>chain_sequences\<close> yields
  exactly their concatenation, and a consumer that makes \<open>n\<close> requests, for any \<open>n\<close>, of
  the generator or of a fresh \<open>ChainSequences\<close> cursor receives the elements of the
  concatenation in order and then only the exhaustion signal. With no sequences the
  concatenation is empty and the first request is answered by exhaustion; an empty
  sequence adds nothing to it.
\<close>

theorem chain_is_concatenation:
  "chain_sequences seqs = concat seqs \<and>
   fst (pull list_next n (chain_sequences seqs)) = observed n (concat seqs) \<and>
   fst (pull ChainSequences_next n (ChainSequences_init seqs)) = observed n (concat seqs)"
  by (simp add: chain_sequences_concat list_next_observed ChainSequences_pull chain_rem_init)

theorem chain_is_concatenation_witness:
  "chain_sequences [[], [1 :: int], []] = [1] \<and>
   fst (pull list_next 3 (chain_sequences [[], [1 :: int], []])) = [Some 1, None, None] \<and>
   fst (pull ChainSequences_next 3 (ChainSequences_init [[], [1 :: int], []]))
     = [Some 1, None, None] \<and>
   fst (pull ChainSequences_next 2 (ChainSequences_init ([] :: int list list))) = [None, None]"
  using chain_is_concatenation [of "[[], [1 :: int], []]" 3]
    chain_is_concatenation [of "[] :: int list list" 2]
  by (simp add: observed_def numeral_2_eq_2 numeral_3_eq_3)

section \<open>Zipping\<close>

lemma pull_Suc: "fst (pull nxt (Suc n) s) = fst (nxt s) # fst (pull nxt n (snd (nxt s)))"
  by (simp split: prod.splits)

lemma advance_each_all:
  "[] \<notin> set its \<Longrightarrow> advance_each its acc = (Some (acc @ map hd its), map tl its)"
proof (induction its arbitrary: acc)
  case Nil
  show ?case by simp
next
  case (Cons it its)
  then obtain x rest where "it = x # rest" by (cases it) auto
  with Cons show ?case by (simp add: list_next_def)
qed

lemma advance_each_exhausted:
  "[] \<in> set its \<Longrightarrow>
   fst (advance_each its acc) = None \<and> [] \<in> set (snd (advance_each its acc))"
proof (induction its arbitrary: acc)
  case Nil
  then show ?case by simp
next
  case (Cons it its)
  show ?case
  proof (cases it)
    case Nil
    then show ?thesis by (simp add: list_next_def)
  next
    case (Cons x rest)
    with Cons.prems have "[] \<in> set its" by simp
    from Cons.IH [OF this, of "acc @ [x]"] Cons show ?thesis
      by (cases "advance_each its (acc @ [x])") (simp add: list_next_def)
  qed
qed

lemma advance_each_length: "length (snd (advance_each its acc)) = length its"
proof (induction its arbitrary: acc)
  case Nil
  show ?case by simp
next
  case (Cons it its)
  show ?case
  proof (cases it)
    case Nil
    then show ?thesis by (simp add: list_next_def)
  next
    case (Cons x rest)
    with Cons.IH [of "acc @ [x]"] show ?thesis
      by (cases "advance_each its (acc @ [x])") (simp add: list_next_def)
  qed
qed

lemma zip_rows_exhausted: "[] \<in> set its \<Longrightarrow> zip_rows its = []"
proof -
  assume "[] \<in> set its"
  then have "0 \<in> length ` set its" by force
  then have "Min (length ` set its) = 0"
    by (metis List.finite_set Min_le finite_imageI le_zero_eq)
  then show ?thesis by (simp add: zip_rows_def)
qed

lemma zip_rows_step:
  assumes "its \<noteq> []" "[] \<notin> set its"
  shows "zip_rows its = map hd its # zip_rows (map tl its)"
proof -
  let ?m = "Min (length ` set its)"
  have fin: "finite (length ` set its)" "length ` set its \<noteq> {}"
    using assms by simp_all
  have "(\<lambda>n. n - 1) ?m = Min ((\<lambda>n. n - 1) ` (length ` set its))"
    using assms by (intro mono_Min_commute) (auto simp: mono_def)
  then have tl_min: "Min (length ` set (map tl its)) = ?m - 1"
    by (simp add: image_image)
  have "?m \<in> length ` set its" using fin by (rule Min_in)
  with assms have "?m \<noteq> 0" by auto
  then obtain m where m: "?m = Suc m" by (cases ?m) auto
  have short: "\<And>s. s \<in> set its \<Longrightarrow> Suc m \<le> length s"
    using fin m by (metis Min_le imageI)
  have head: "map (\<lambda>s. s ! 0) its = map hd its"
    using assms by (intro map_cong refl) (metis hd_conv_nth)
  have rest: "map (\<lambda>j. map (\<lambda>s. s ! Suc j) its) [0..<m]
            = map (\<lambda>j. map (\<lambda>s. s ! j) (map tl its)) [0..<m]"
  proof -
    have "s ! Suc j = tl s ! j" if "s \<in> set its" "j < m" for s j
    proof -
      from short [OF that(1)] that(2) have "j < length (tl s)" by simp
      then show ?thesis by (simp add: nth_tl)
    qed
    then show ?thesis by simp
  qed
  show ?thesis
    unfolding zip_rows_def tl_min m using head rest
    by (simp add: map_upt_Suc del: upt_Suc)
qed

lemma ZipSequences_next_step:
  assumes "iterators s \<noteq> []"
  shows "iterators (snd (ZipSequences_next s)) \<noteq> [] \<and>
     fst (ZipSequences_next s) = (case zip_rows (iterators s) of [] \<Rightarrow> None | x # _ \<Rightarrow> Some x) \<and>
     zip_rows (iterators (snd (ZipSequences_next s))) = tl (zip_rows (iterators s))"
proof (cases "[] \<in> set (iterators s)")
  case True
  from advance_each_exhausted [OF True, of "[]"] advance_each_length [of "iterators s" "[]"] assms
  show ?thesis
    by (cases "advance_each (iterators s) []")
       (auto simp: ZipSequences_next_def zip_rows_exhausted zip_rows_exhausted [OF True])
next
  case False
  with assms show ?thesis
    by (simp add: ZipSequences_next_def advance_each_all zip_rows_step)
qed

lemma zip_sequences_next_step:
  assumes "zip_generator_ok g"
  shows "zip_generator_ok (snd (zip_sequences_next g)) \<and>
     fst (zip_sequences_next g) = (case zip_generator_rows g of [] \<Rightarrow> None | x # _ \<Rightarrow> Some x) \<and>
     zip_generator_rows (snd (zip_sequences_next g)) = tl (zip_generator_rows g)"
proof (cases g)
  case Finished
  then show ?thesis by simp
next
  case (Running its)
  show ?thesis
  proof (cases "[] \<in> set its")
    case True
    from advance_each_exhausted [OF True, of "[]"] Running
    show ?thesis
      by (cases "advance_each its []") (auto simp: zip_rows_exhausted [OF True])
  next
    case False
    with assms Running show ?thesis
      by (simp add: advance_each_all zip_rows_step)
  qed
qed

lemma ZipSequences_pull:
  "iterators s \<noteq> [] \<Longrightarrow>
   fst (pull ZipSequences_next n s) = observed n (zip_rows (iterators s))"
  by (rule pull_abstraction [where I = "\<lambda>s. iterators s \<noteq> []" and rem = "\<lambda>s. zip_rows (iterators s)"])
     (simp_all add: ZipSequences_next_step)

lemma zip_sequences_pull:
  "zip_generator_ok g \<Longrightarrow>
   fst (pull zip_sequences_next n g) = observed n (zip_generator_rows g)"
  by (rule pull_abstraction [where I = zip_generator_ok])
     (simp_all add: zip_sequences_next_step)

text \<open>
  C5: for every non-empty list of finite input sequences, a consumer that makes \<open>n\<close>
  requests, for any \<open>n\<close>, of a fresh \<open>ZipSequences\<close> cursor or of the generator
  \<open>zip_sequences\<close> receives exactly \<open>m\<close> tuples, where \<open>m\<close> is the least of the input
  lengths, the \<open>j\<close>-th tuple holding the \<open>j\<close>-th element of every input in order, and from
  then on only the exhaustion signal: exhaustion starts when the shortest input runs
  out and never ends.
\<close>

theorem zip_stops_at_shortest:
  assumes "seqs \<noteq> []"
  shows "fst (pull ZipSequences_next n (ZipSequences_init seqs))
           = observed n (map (\<lambda>j. map (\<lambda>s. s ! j) seqs) [0..<Min (length ` set seqs)]) \<and>
         fst (pull zip_sequences_next n (zip_sequences seqs))
           = observed n (map (\<lambda>j. map (\<lambda>s. s ! j) seqs) [0..<Min (length ` set seqs)])"
  using assms ZipSequences_pull [of "ZipSequences_init seqs" n]
    zip_sequences_pull [of "zip_sequences seqs" n]
  by (simp add: ZipSequences_init_def zip_sequences_def zip_rows_def)

theorem zip_stops_at_shortest_witness:
  "[[1, 2, 3], [4, 5], [6 :: int]] \<noteq> [] \<and>
   fst (pull ZipSequences_next 3 (ZipSequences_init [[1, 2, 3], [4, 5], [6 :: int]]))
     = [Some [1, 4, 6], None, None] \<and>
   fst (pull zip_sequences_next 3 (zip_sequences [[1, 2, 3], [4, 5], [6 :: int]]))
     = [Some [1, 4, 6], None, None]"
  using zip_stops_at_shortest [of "[[1, 2, 3], [4, 5], [6 :: int]]" 3]
  by (simp add: observed_def eval_nat_numeral)

text \<open>
  C1 (not met by the code): with no input sequences at all the loop over the iterators
  has nothing to advance, so no \<^verbatim>\<open>StopIteration\<close> is ever raised: every request
  to a \<open>ZipSequences\<close> cursor or to the \<open>zip_sequences\<close> generator returns the empty tuple,
  and neither is ever exhausted.
\<close>

theorem zip_of_nothing_never_exhausted:
  "fst (pull ZipSequences_next n (ZipSequences_init ([] :: 'a list list))) = replicate n (Some []) \<and>
   fst (pull zip_sequences_next n (zip_sequences ([] :: 'a list list))) = replicate n (Some [])"
proof (induction n)
  case 0
  show ?case by simp
next
  case (Suc n)
  have "fst (ZipSequences_next (ZipSequences_init ([] :: 'a list list))) = Some []"
    "snd (ZipSequences_next (ZipSequences_init ([] :: 'a list list))) = ZipSequences_init ([] :: 'a list list)"
    by (simp_all add: ZipSequences_init_def ZipSequences_next_def)
  moreover have "fst (zip_sequences_next (zip_sequences ([] :: 'a list list))) = Some []"
    "snd (zip_sequences_next (zip_sequences ([] :: 'a list list))) = zip_sequences ([] :: 'a list list)"
    by (simp_all add: zip_sequences_def)
  ultimately show ?case
    using Suc by (simp add: pull_Suc del: pull.simps)
qed

theorem zip_of_nothing_never_exhausted_witness:
  "fst (pull ZipSequences_next 3 (ZipSequences_init ([] :: int list list)))
     = [Some [], Some [], Some []] \<and>
   fst (pull zip_sequences_next 3 (zip_sequences ([] :: int list list)))
     = [Some [], Some [], Some []]"
  using zip_of_nothing_never_exhausted [of 3, where ?'a = int]
  by (simp add: eval_nat_numeral)

section \<open>Flattening\<close>

declare FlattenIterator_next.simps [simp del]

lemma FlattenIterator_next_step:
  "fst (FlattenIterator_next stack) = (case flat_rem stack of [] \<Rightarrow> None | x # _ \<Rightarrow> Some x) \<and>
   flat_rem (snd (FlattenIterator_next stack)) = tl (flat_rem stack)"
proof (induction stack rule: FlattenIterator_next.induct)
  case (1 stack)
  show ?case
  proof (cases "stack = []")
    case True
    then show ?thesis
      by (subst (1 2) FlattenIterator_next.simps) (simp add: flat_rem_def)
  next
    case False
    obtain current_list index where top: "last stack = (current_list, index)"
      by (cases "last stack")
    with False have stack: "stack = butlast stack @ [(current_list, index)]"
      by (metis append_butlast_last_id)
    show ?thesis
    proof (cases "index \<ge> length current_list")
      case True
      have eq: "FlattenIterator_next stack = FlattenIterator_next (butlast stack)"
        using False top True by (subst FlattenIterator_next.simps) simp
      have "flat_rem stack = flat_rem (butlast stack)"
        using True by (subst stack) (simp add: flat_rem_def)
      with "1.IH"(1) [OF False top [symmetric] True] eq show ?thesis
        by simp
    next
      case inside: False
      let ?stack1 = "butlast stack @ [(current_list, index + 1)]"
      let ?element = "current_list ! index"
      from inside have dropi: "drop index current_list = ?element # drop (Suc index) current_list"
        by (simp add: Cons_nth_drop_Suc)
      show ?thesis
      proof (cases "isinstance_list ?element")
        case True
        then obtain items where items: "?element = PList items"
          by (cases ?element) auto
        have eq: "FlattenIterator_next stack = FlattenIterator_next (?stack1 @ [(items, 0)])"
          using False top inside items by (subst FlattenIterator_next.simps) simp
        have "flat_rem stack = flat_rem (?stack1 @ [(items, 0)])"
          using items dropi by (subst stack) (simp add: flat_rem_def)
        with "1.IH"(2) [OF False top [symmetric] inside refl refl items] eq
        show ?thesis by simp
      next
        case leaf: False
        have eq: "FlattenIterator_next stack = (Some ?element, ?stack1)"
          using False top inside leaf
          by (subst FlattenIterator_next.simps) (cases ?element; simp)
        have "flat_rem stack = ?element # flat_rem ?stack1"
          using leaf dropi
          by (subst stack) (cases ?element; simp add: flat_rem_def)
        with eq show ?thesis by simp
      qed
    qed
  qed
qed

lemma FlattenIterator_pull:
  "fst (pull FlattenIterator_next n stack) = observed n (flat_rem stack)"
  by (rule pull_abstraction [where I = "\<lambda>_. True"]) (simp_all add: FlattenIterator_next_step)

lemma flat_rem_init: "flat_rem (FlattenIterator_init nested_list) = concat (map leaves nested_list)"
  by (simp add: flat_rem_def FlattenIterator_init_def)

text \<open>
  C7: for every finite nested list, a consumer that makes \<open>n\<close> requests, for any \<open>n\<close>, of a
  fresh \<open>FlattenIterator\<close> receives exactly the leaves of the structure in depth-first,
  left-to-right order and then only the exhaustion signal. An empty list and a list of
  empty lists have no leaves; \<^verbatim>\<open>[1, 2, [3, [4], 5]]\<close> gives 1, 2, 3, 4, 5.
\<close>

theorem flatten_iterator_depth_first:
  "fst (pull FlattenIterator_next n (FlattenIterator_init nested_list))
     = observed n (leaves (PList nested_list))"
  by (simp add: FlattenIterator_pull flat_rem_init)

theorem flatten_iterator_depth_first_witness:
  "fst (pull FlattenIterator_next 6
          (FlattenIterator_init [PInt 1, PInt 2, PList [PInt 3, PList [PInt 4], PInt 5]]))
     = [Some (PInt 1), Some (PInt 2), Some (PInt 3), Some (PInt 4), Some (PInt 5), None] \<and>
   fst (pull FlattenIterator_next 1 (FlattenIterator_init [])) = [None] \<and>
   fst (pull FlattenIterator_next 1 (FlattenIterator_init [PList [PList []]])) = [None]"
  using flatten_iterator_depth_first
          [of 6 "[PInt 1, PInt 2, PList [PInt 3, PList [PInt 4], PInt 5]]"]
    flatten_iterator_depth_first [of 1 "[]"]
    flatten_iterator_depth_first [of 1 "[PList [PList []]]"]
  by (simp add: observed_def eval_nat_numeral)

subsection \<open>The recursive generator and the call stack\<close>

lemma gen_then_simps [simp]:
  "gen_then (ys, Some e) b = (ys, Some e)"
  "gen_then (ys, None) (zs, r) = (ys @ zs, r)"
  "gen_then ([], None) b = b"
  by (simp_all add: gen_then_def split: prod.splits)






text \<open>With a frame for every level of nesting the generator yields all the leaves.\<close>

lemma generator_within_limit:
  "depth (PList nested_list) \<le> frames \<Longrightarrow>
   flatten_iterator_generator frames nested_list = (concat (map leaves nested_list), None)"
proof (induction frames nested_list rule: flatten_iterator_generator.induct)
  case (1 nested_list)
  then show ?case by simp
next
  case (2 frames)
  show ?case by simp
next
  case (3 frames element rest)
  from "3.prems" have el: "depth element \<le> frames"
    and rest: "depth (PList rest) \<le> Suc frames"
    by simp_all
  from "3.IH"(2) [OF rest]
  have B: "flatten_iterator_generator (Suc frames) rest = (concat (map leaves rest), None)" .
  have "(case element of
           PList items \<Rightarrow> flatten_iterator_generator frames items
         | _ \<Rightarrow> ([element], None)) = (leaves element, None)"
    using "3.IH"(1) el by (cases element) simp_all
  with B show ?case by simp
qed

lemma leaves_nest: "\<not> isinstance_list v \<Longrightarrow> leaves (nest k v) = [v]"
  by (induction k) (cases v; simp)+

lemma generator_out_of_frames:
  "frames \<le> k \<Longrightarrow> flatten_iterator_generator frames [nest k v] = ([], Some RecursionError)"
proof (induction frames arbitrary: k)
  case 0
  show ?case by simp
next
  case (Suc frames)
  then obtain k' where k: "k = Suc k'" and "frames \<le> k'"
    by (cases k) simp_all
  with Suc.IH [of k'] show ?case by simp
qed

text \<open>
  C8 (not met by the code): the recursive generator needs a frame of the call stack for
  every level of nesting, the stack-based iterator needs none. Whatever number of frames
  the interpreter leaves to the generator, on a list that holds the integer \<open>i\<close> wrapped
  in at least as many lists the generator yields nothing and raises \<^verbatim>\<open>RecursionError\<close>,
  while a fresh \<open>FlattenIterator\<close> answers the requests with \<open>i\<close> and then the exhaustion
  signal. With a frame for each of the lists the generator yields \<open>i\<close> too.
\<close>

theorem flatten_generator_stack_overflow:
  assumes "frames \<le> k"
  shows "flatten_iterator_generator frames [nest k (PInt i)] = ([], Some RecursionError) \<and>
         fst (pull FlattenIterator_next n (FlattenIterator_init [nest k (PInt i)]))
           = observed n [PInt i] \<and>
         flatten_iterator_generator (Suc k) [nest k (PInt i)] = ([PInt i], None)"
proof -
  have "depth (nest k (PInt i)) = k"
    by (induction k) simp_all
  then have "flatten_iterator_generator (Suc k) [nest k (PInt i)]
      = (concat (map leaves [nest k (PInt i)]), None)"
    by (intro generator_within_limit) simp
  with assms show ?thesis
    by (simp add: generator_out_of_frames FlattenIterator_pull flat_rem_init leaves_nest)
qed

theorem flatten_generator_stack_overflow_witness:
  "(2 :: nat) \<le> 3 \<and>
   flatten_iterator_generator 2 [PList [PList [PList [PInt 1]]]] = ([], Some RecursionError) \<and>
   fst (pull FlattenIterator_next 2 (FlattenIterator_init [PList [PList [PList [PInt 1]]]]))
     = [Some (PInt 1), None] \<and>
   flatten_iterator_generator 4 [PList [PList [PList [PInt 1]]]] = ([PInt 1], None)"
proof -
  have h: "(2 :: nat) \<le> 3" by simp
  have "nest 3 (PInt 1) = PList [PList [PList [PInt 1]]]"
    by (simp add: eval_nat_numeral)
  with flatten_generator_stack_overflow [OF h, of 1 2] h show ?thesis
    by (simp add: observed_def eval_nat_numeral)
qed

subsection \<open>Lists are the only containers\<close>





section \<open>Exhaustion\<close>

lemma observed_Nil: "observed n [] = replicate n None"
  by (simp add: observed_def)

text \<open>
  C9: for each of the cursors \<open>ChainSequences\<close>, \<open>ZipSequences\<close> and \<open>FlattenIterator\<close>, in
  any state: once a request is answered by the exhaustion signal, every later request,
  however many, is answered by the exhaustion signal too, and never by a value.
\<close>

theorem exhaustion_is_terminal:
  "(fst (ChainSequences_next c) = None \<longrightarrow>
      fst (pull ChainSequences_next n (snd (ChainSequences_next c))) = replicate n None) \<and>
   (fst (ZipSequences_next z) = None \<longrightarrow>
      fst (pull ZipSequences_next n (snd (ZipSequences_next z))) = replicate n None) \<and>
   (fst (FlattenIterator_next stack) = None \<longrightarrow>
      fst (pull FlattenIterator_next n (snd (FlattenIterator_next stack))) = replicate n None)"
proof (intro conjI impI)
  assume "fst (ChainSequences_next c) = None"
  with ChainSequences_next_step [of c] have "chain_rem (snd (ChainSequences_next c)) = []"
    by (cases "chain_rem c") simp_all
  then show "fst (pull ChainSequences_next n (snd (ChainSequences_next c))) = replicate n None"
    by (simp add: ChainSequences_pull observed_Nil)
next
  assume none: "fst (ZipSequences_next z) = None"
  have nonempty: "iterators z \<noteq> []"
  proof
    assume "iterators z = []"
    then have "fst (ZipSequences_next z) = Some []"
      by (simp add: ZipSequences_next_def)
    with none show False by simp
  qed
  from ZipSequences_next_step [OF nonempty] none
  have "iterators (snd (ZipSequences_next z)) \<noteq> []"
    and "zip_rows (iterators (snd (ZipSequences_next z))) = []"
    by (cases "zip_rows (iterators z)"; simp)+
  then show "fst (pull ZipSequences_next n (snd (ZipSequences_next z))) = replicate n None"
    by (simp add: ZipSequences_pull observed_Nil)
next
  assume "fst (FlattenIterator_next stack) = None"
  with FlattenIterator_next_step [of stack] have "flat_rem (snd (FlattenIterator_next stack)) = []"
    by (cases "flat_rem stack") simp_all
  then show "fst (pull FlattenIterator_next n (snd (FlattenIterator_next stack))) = replicate n None"
    by (simp add: FlattenIterator_pull observed_Nil)
qed

theorem exhaustion_is_terminal_witness:
  "fst (ChainSequences_next (ChainSequences_init [[] :: int list])) = None \<and>
   fst (pull ChainSequences_next 2 (snd (ChainSequences_next (ChainSequences_init [[] :: int list]))))
     = [None, None] \<and>
   fst (ZipSequences_next (ZipSequences_init [[1 :: int], []])) = None \<and>
   fst (pull ZipSequences_next 2 (snd (ZipSequences_next (ZipSequences_init [[1 :: int], []]))))
     = [None, None] \<and>
   fst (FlattenIterator_next (FlattenIterator_init [PList []])) = None \<and>
   fst (pull FlattenIterator_next 2 (snd (FlattenIterator_next (FlattenIterator_init [PList []]))))
     = [None, None]"
proof -
  have c: "fst (ChainSequences_next (ChainSequences_init [[] :: int list])) = None"
    by (simp add: ChainSequences_next.simps ChainSequences_init_def list_next_def)
  have z: "fst (ZipSequences_next (ZipSequences_init [[1 :: int], []])) = None"
    by (simp add: ZipSequences_next_def ZipSequences_init_def list_next_def)
  have f: "fst (FlattenIterator_next (FlattenIterator_init [PList []])) = None"
    by (simp add: FlattenIterator_next.simps FlattenIterator_init_def)
  from exhaustion_is_terminal
         [of "ChainSequences_init [[] :: int list]" 2 "ZipSequences_init [[1 :: int], []]"
             "FlattenIterator_init [PList []]"] c z f
  show ?thesis
    by (simp add: eval_nat_numeral)
qed

section \<open>Combinations\<close>

declare combine.simps [simp del]










text \<open>
  C4: for every sequence and every integer \<open>k\<close> with \<open>k \<le> 0\<close> or \<open>k\<close> above the length of
  the sequence, \<open>generate_combinations\<close> yields nothing. The guard returns before the
  sequence is read, so nothing can be raised on this path: the result is the empty
  sequence of combinations and not an error.
\<close>

theorem combinations_invalid_k_empty:
  "k \<le> 0 \<or> k > int (length sequence) \<Longrightarrow> generate_combinations sequence k = []"
  by (auto simp: generate_combinations_def)

theorem combinations_invalid_k_empty_witness:
  "((0 :: int) \<le> 0 \<or> (0 :: int) > int (length [1, 2, 3 :: int])) \<and>
   generate_combinations [1, 2, 3 :: int] 0 = [] \<and>
   ((3 :: int) \<le> 0 \<or> (3 :: int) > int (length [1, 2 :: int])) \<and>
   generate_combinations [1, 2 :: int] 3 = []"
  using combinations_invalid_k_empty [of 0 "[1, 2, 3 :: int]"]
    combinations_invalid_k_empty [of 3 "[1, 2 :: int]"]
  by simp

section \<open>Primes\<close>

lemma isqrt_bounds: "isqrt n * isqrt n \<le> n \<and> n < (isqrt n + 1) * (isqrt n + 1)"
proof (induction n)
  case 0
  show ?case by simp
next
  case (Suc n)
  then show ?case by (auto simp: Let_def)
qed

lemma range_step_index:
  fixes q start stop step :: nat
  assumes "0 < step"
  shows "q < (stop - start + step - 1) div step \<longleftrightarrow> start + q * step < stop"
proof -
  have "q < (stop - start + step - 1) div step \<longleftrightarrow> Suc q \<le> (stop - start + step - 1) div step"
    by auto
  also have "\<dots> \<longleftrightarrow> Suc q * step \<le> stop - start + step - 1"
    using assms by (simp add: less_eq_div_iff_mult_less_eq)
  also have "\<dots> \<longleftrightarrow> start + q * step < stop"
    using assms by auto
  finally show ?thesis .
qed

lemma set_range_step:
  assumes "0 < step"
  shows "set (range_step start stop step) = {j. start \<le> j \<and> j < stop \<and> step dvd (j - start)}"
proof (intro set_eqI iffI)
  fix j
  assume "j \<in> set (range_step start stop step)"
  then have "\<exists>q. j = start + q * step \<and> q < (stop - start + step - 1) div step"
    by (auto simp: range_step_def)
  then obtain q where "j = start + q * step" "q < (stop - start + step - 1) div step"
    by blast
  then show "j \<in> {j. start \<le> j \<and> j < stop \<and> step dvd (j - start)}"
    using range_step_index [OF assms, of q stop start] by simp
next
  fix j
  assume "j \<in> {j. start \<le> j \<and> j < stop \<and> step dvd (j - start)}"
  then have lo: "start \<le> j" and hi: "j < stop" and "step dvd (j - start)"
    by simp_all
  then obtain q where q: "j - start = q * step"
    by (auto simp: dvd_def mult.commute)
  with lo have j: "j = start + q * step" by simp
  with hi have "q < (stop - start + step - 1) div step"
    using range_step_index [OF assms, of q stop start] by simp
  with j show "j \<in> set (range_step start stop step)"
    by (auto simp: range_step_def)
qed

lemma fold_clear:
  "length (fold (\<lambda>j marks. marks[j := False]) js marks) = length marks \<and>
   (\<forall>m < length marks.
      fold (\<lambda>j marks. marks[j := False]) js marks ! m = (marks ! m \<and> m \<notin> set js))"
proof (induction js arbitrary: marks)
  case Nil
  show ?case by simp
next
  case (Cons j js)
  have "marks[j := False] ! m = (marks ! m \<and> m \<noteq> j)" if "m < length marks" for m
    using that by (cases "j < length marks") (auto simp: nth_list_update)
  with Cons [of "marks[j := False]"] show ?case
    by auto
qed

lemma strike_nth:
  assumes "0 < i" "length marks = n" "m < n"
  shows "length (strike n i marks) = n"
    and "strike n i marks ! m = (marks ! m \<and> \<not> (i * i \<le> m \<and> i dvd m))"
proof -
  show "length (strike n i marks) = n"
    using assms fold_clear [of "range_step (i * i) n i" marks] by (simp add: strike_def)
  have "i dvd (m - i * i) \<longleftrightarrow> i dvd m" if "i * i \<le> m"
  proof -
    from that have "m = (m - i * i) + i * i" by simp
    then show ?thesis by (metis dvd_add_left_iff dvd_triv_left)
  qed
  then have "m \<in> set (range_step (i * i) n i) \<longleftrightarrow> i * i \<le> m \<and> i dvd m"
    using assms by (auto simp: set_range_step)
  then show "strike n i marks ! m = (marks ! m \<and> \<not> (i * i \<le> m \<and> i dvd m))"
    using assms fold_clear [of "range_step (i * i) n i" marks] by (simp add: strike_def)
qed

lemma sieved_init: "sieved n 2 ((replicate n True)[0 := False, 1 := False])"
  unfolding sieved_def
proof (intro conjI allI impI)
  show "length ((replicate n True)[0 := False, 1 := False]) = n"
    by simp
next
  fix m
  assume "m < n"
  then have "(replicate n True)[0 := False, 1 := False] ! m = (2 \<le> m)"
    by (cases "m = 0"; cases "m = 1") (auto simp: nth_list_update)
  moreover have "\<forall>d. 2 \<le> d \<and> d < 2 \<and> d * d \<le> m \<longrightarrow> \<not> d dvd m"
    by auto
  ultimately show "(replicate n True)[0 := False, 1 := False] ! m =
      (2 \<le> m \<and> (\<forall>d. 2 \<le> d \<and> d < 2 \<and> d * d \<le> m \<longrightarrow> \<not> d dvd m))"
    by blast
qed

lemma sieved_step:
  assumes inv: "sieved n k marks" and k: "2 \<le> k" "k < n"
  shows "sieved n (Suc k) (if marks ! k then strike n k marks else marks)"
proof (cases "marks ! k")
  case True
  from inv have len: "length marks = n" by (simp add: sieved_def)
  from k have pos: "0 < k" by simp
  have "strike n k marks ! m =
      (2 \<le> m \<and> (\<forall>d. 2 \<le> d \<and> d < Suc k \<and> d * d \<le> m \<longrightarrow> \<not> d dvd m))" if "m < n" for m
  proof -
    have "strike n k marks ! m = (marks ! m \<and> \<not> (k * k \<le> m \<and> k dvd m))"
      using strike_nth(2) [OF pos len that] .
    also have "\<dots> = (2 \<le> m \<and> (\<forall>d. 2 \<le> d \<and> d < k \<and> d * d \<le> m \<longrightarrow> \<not> d dvd m)
                       \<and> \<not> (k * k \<le> m \<and> k dvd m))"
      using inv that by (simp add: sieved_def)
    also have "\<dots> = (2 \<le> m \<and> (\<forall>d. 2 \<le> d \<and> d < Suc k \<and> d * d \<le> m \<longrightarrow> \<not> d dvd m))"
      using k(1) by (auto simp: less_Suc_eq)
    finally show ?thesis .
  qed
  with True strike_nth(1) [OF pos len] k show ?thesis
    by (simp add: sieved_def)
next
  case False
  from inv k False obtain d where d: "2 \<le> d" "d < k" "d * d \<le> k" "d dvd k"
    by (auto simp: sieved_def)
  have "(\<forall>d. 2 \<le> d \<and> d < k \<and> d * d \<le> m \<longrightarrow> \<not> d dvd m) =
        (\<forall>d. 2 \<le> d \<and> d < Suc k \<and> d * d \<le> m \<longrightarrow> \<not> d dvd m)" for m
  proof
    assume old: "\<forall>d. 2 \<le> d \<and> d < k \<and> d * d \<le> m \<longrightarrow> \<not> d dvd m"
    have "\<not> k dvd m" if "k * k \<le> m"
    proof
      assume "k dvd m"
      with d(4) have "d dvd m" by (rule dvd_trans)
      moreover from d(2) that have "d * d \<le> m"
        by (meson le_trans less_imp_le_nat mult_le_mono)
      ultimately show False using old d(1,2) by blast
    qed
    with old show "\<forall>d. 2 \<le> d \<and> d < Suc k \<and> d * d \<le> m \<longrightarrow> \<not> d dvd m"
      by (auto simp: less_Suc_eq)
  next
    assume "\<forall>d. 2 \<le> d \<and> d < Suc k \<and> d * d \<le> m \<longrightarrow> \<not> d dvd m"
    then show "\<forall>d. 2 \<le> d \<and> d < k \<and> d * d \<le> m \<longrightarrow> \<not> d dvd m"
      by auto
  qed
  with inv False show ?thesis
    by (simp add: sieved_def)
qed

lemma sieve_Suc:
  "1 \<le> r \<Longrightarrow> sieve n (Suc r) =
     (let marks = sieve n r in if marks ! Suc r then strike n (Suc r) marks else marks)"
  by (simp add: sieve_def Let_def)

lemma sieved_sieve: "1 \<le> r \<Longrightarrow> r < n \<Longrightarrow> sieved n (Suc r) (sieve n r)"
proof (induction r)
  case 0
  then show ?case by simp
next
  case (Suc r)
  show ?case
  proof (cases "r = 0")
    case True
    then show ?thesis using sieved_init [of n] by (simp add: sieve_def numeral_2_eq_2)
  next
    case False
    with Suc have inv: "sieved n (Suc r) (sieve n r)" by simp
    from False have "1 \<le> r" by simp
    from sieved_step [OF inv] Suc.prems False sieve_Suc [OF \<open>1 \<le> r\<close>, of n]
    show ?thesis by (simp add: Let_def)
  qed
qed

lemma isqrt_range:
  assumes "2 \<le> n"
  shows "1 \<le> isqrt n" and "isqrt n < n"
proof -
  from isqrt_bounds [of n] have up: "n < (isqrt n + 1) * (isqrt n + 1)"
    and low: "isqrt n * isqrt n \<le> n"
    by simp_all
  show "1 \<le> isqrt n"
  proof (rule ccontr)
    assume "\<not> 1 \<le> isqrt n"
    then have "isqrt n = 0" by simp
    with up assms show False by simp
  qed
  show "isqrt n < n"
  proof (rule ccontr)
    assume "\<not> isqrt n < n"
    then have "n \<le> isqrt n" by simp
    with assms have "2 * isqrt n \<le> isqrt n * isqrt n"
      by (intro mult_le_mono) simp_all
    with low \<open>n \<le> isqrt n\<close> assms show False by simp
  qed
qed

lemma no_small_divisor:
  fixes m r :: nat
  assumes m: "2 \<le> m" and r: "m < (r + 1) * (r + 1)"
  shows "(\<forall>d. 2 \<le> d \<and> d < Suc r \<and> d * d \<le> m \<longrightarrow> \<not> d dvd m) \<longleftrightarrow>
         (\<forall>d\<in>{2..<m}. \<not> d dvd m)"
proof
  assume all: "\<forall>d\<in>{2..<m}. \<not> d dvd m"
  show "\<forall>d. 2 \<le> d \<and> d < Suc r \<and> d * d \<le> m \<longrightarrow> \<not> d dvd m"
  proof (intro allI impI)
    fix d
    assume "2 \<le> d \<and> d < Suc r \<and> d * d \<le> m"
    then have d: "2 \<le> d" and dd: "d * d \<le> m" by simp_all
    from d have "2 * d \<le> d * d" by (intro mult_le_mono) simp_all
    with d dd have "d < m" by linarith
    with d all show "\<not> d dvd m" by simp
  qed
next
  assume small: "\<forall>d. 2 \<le> d \<and> d < Suc r \<and> d * d \<le> m \<longrightarrow> \<not> d dvd m"
  show "\<forall>d\<in>{2..<m}. \<not> d dvd m"
  proof
    fix d
    assume "d \<in> {2..<m}"
    then have d: "2 \<le> d" "d < m" by simp_all
    show "\<not> d dvd m"
    proof
      assume "d dvd m"
      then obtain e where e: "m = d * e" by (auto simp: dvd_def)
      with d have e2: "2 \<le> e"
        by (cases "e = 0"; cases "e = 1") auto
      define c where "c = min d e"
      have c2: "2 \<le> c" using d e2 by (simp add: c_def)
      have cm: "c * c \<le> m" unfolding e c_def by (intro mult_le_mono) simp_all
      have cdvd: "c dvd m" unfolding e c_def by (simp add: min_def)
      have "c < Suc r"
      proof (rule ccontr)
        assume "\<not> c < Suc r"
        then have "r + 1 \<le> c" by simp
        then have "(r + 1) * (r + 1) \<le> c * c" by (intro mult_le_mono)
        with cm r show False by simp
      qed
      with small c2 cm cdvd show False by blast
    qed
  qed
qed

lemma sieve_marks_primes_bound:
  assumes r: "1 \<le> r" "r < n" "n \<le> (r + 1) * (r + 1)" and m: "m < n"
  shows "sieve n r ! m = (2 \<le> m \<and> (\<forall>d\<in>{2..<m}. \<not> d dvd m))"
proof -
  from r have "sieved n (Suc r) (sieve n r)"
    by (intro sieved_sieve)
  with m have marks: "sieve n r ! m =
      (2 \<le> m \<and> (\<forall>d. 2 \<le> d \<and> d < Suc r \<and> d * d \<le> m \<longrightarrow> \<not> d dvd m))"
    by (simp add: sieved_def)
  show ?thesis
  proof (cases "2 \<le> m")
    case False
    with marks show ?thesis by simp
  next
    case True
    from r(3) m have "m < (r + 1) * (r + 1)" by simp
    from no_small_divisor [OF True this] marks True show ?thesis by simp
  qed
qed

lemma sieve_marks_primes:
  assumes n: "3 \<le> n" and m: "m < n"
  shows "sieve n (isqrt n) ! m = (2 \<le> m \<and> (\<forall>d\<in>{2..<m}. \<not> d dvd m))"
proof -
  from n have "2 \<le> n" by simp
  from isqrt_range [OF this] isqrt_bounds [of n] m show ?thesis
    by (intro sieve_marks_primes_bound) simp_all
qed

lemma map_int_upt: "map int [a..<b] = [int a..int b - 1]"
proof (induction b)
  case 0
  show ?case by simp
next
  case (Suc b)
  show ?case
  proof (cases "a \<le> b")
    case True
    then have "[int a..int (Suc b) - 1] = [int a..int b - 1] @ [int b]"
      using upto_rec2 [of "int a" "int b"] by simp
    with Suc True show ?thesis by simp
  next
    case False
    then show ?thesis by simp
  qed
qed

lemma no_divisor_int:
  "(\<forall>d\<in>{2..<int i}. \<not> d dvd int i) \<longleftrightarrow> (\<forall>d\<in>{2..<i}. \<not> d dvd i)"
proof
  assume ints: "\<forall>d\<in>{2..<int i}. \<not> d dvd int i"
  show "\<forall>d\<in>{2..<i}. \<not> d dvd i"
  proof
    fix d assume "d \<in> {2..<i}"
    then have "int d \<in> {2..<int i}" by simp
    with ints have "\<not> int d dvd int i" by blast
    then show "\<not> d dvd i" by simp
  qed
next
  assume nats: "\<forall>d\<in>{2..<i}. \<not> d dvd i"
  show "\<forall>d\<in>{2..<int i}. \<not> d dvd int i"
  proof
    fix d assume d: "d \<in> {2..<int i}"
    then have "nat d \<in> {2..<i}" by auto
    with nats have "\<not> nat d dvd i" by blast
    moreover from d have "d = int (nat d)" by simp
    ultimately show "\<not> d dvd int i" by (metis int_dvd_int_iff)
  qed
qed

text \<open>
  C2: for every integer \<open>n\<close>, \<open>generate_primes n\<close> yields nothing when \<open>n \<le> 1\<close>, and
  otherwise 1 followed by the numbers from 2 to \<open>n - 1\<close>, in ascending order, that have
  no divisor from 2 up to themselves excluded: exactly the primes below \<open>n\<close>, each once.
  (The outer loop may stop at any \<open>r\<close> below \<open>n\<close> whose successor's square reaches \<open>n\<close>,
  see \<open>sieve_marks_primes_bound\<close>; the integer square root is one.)
\<close>

theorem primes_below:
  "generate_primes n =
     (if n \<le> 1 then [] else 1 # filter (\<lambda>v. \<forall>d\<in>{2..<v}. \<not> d dvd v) [2..n - 1])"
proof -
  consider "n \<le> 1" | "n = 2" | "3 \<le> n" by linarith
  then show ?thesis
  proof cases
    case 1
    then show ?thesis by (simp add: generate_primes_def)
  next
    case 2
    then show ?thesis by (simp add: generate_primes_def)
  next
    case 3
    let ?N = "nat n"
    from 3 have N: "3 \<le> ?N" by simp
    have "filter (\<lambda>i. sieve ?N (isqrt ?N) ! i) [2..<?N]
        = filter (\<lambda>i. \<forall>d\<in>{2..<i}. \<not> d dvd i) [2..<?N]"
      using sieve_marks_primes [OF N] by (intro filter_cong refl) simp
    then have "map int (filter (\<lambda>i. sieve ?N (isqrt ?N) ! i) [2..<?N])
        = filter (\<lambda>v. \<forall>d\<in>{2..<v}. \<not> d dvd v) (map int [2..<?N])"
      by (simp add: filter_map comp_def no_divisor_int)
    also have "map int [2..<?N] = [2..n - 1]"
      using 3 by (simp add: map_int_upt)
    finally show ?thesis
      using 3 by (simp add: generate_primes_def Let_def)
  qed
qed

theorem primes_below_witness:
  "generate_primes 8 = [1, 2, 3, 5, 7] \<and> generate_primes 2 = [1] \<and>
   generate_primes 1 = [] \<and> generate_primes 0 = []"
proof -
  have "filter (\<lambda>v. \<forall>d\<in>{2..<v}. \<not> d dvd v) [2..(8 :: int) - 1] = [2, 3, 5, 7]"
    by code_simp
  moreover have "filter (\<lambda>v. \<forall>d\<in>{2..<v}. \<not> d dvd v) [2..(2 :: int) - 1] = []"
    by code_simp
  ultimately show ?thesis
    using primes_below [of 8] primes_below [of 2] primes_below [of 1] primes_below [of 0]
    by simp
qed

end
